theory Spec2Isabelle
  imports Complex_Main
begin

section \<open>Ring elements and errors\<close>

text \<open>
  A \<open>RingElement\<close> of \<^verbatim>\<open>Hard.py\<close> stores \<^verbatim>\<open>data\<close>, which is either an \<^verbatim>\<open>int\<close> or a list of
  coefficients \<^verbatim>\<open>[a0, a1, ..., an]\<close> (ascending degree); \<^verbatim>\<open>is_polynomial\<close> is
  \<^verbatim>\<open>isinstance(data, list)\<close>. Python integers are unbounded, hence \<open>int\<close>. Coefficients are
  taken in the field of rationals with exact arithmetic: the embedding describes the runs of the
  program in which \<^verbatim>\<open>/\<close>, \<^verbatim>\<open>*\<close> and \<^verbatim>\<open>-\<close> are exact, as they are on coefficients of type
  \<^verbatim>\<open>fractions.Fraction\<close> and on floats as long as no operation rounds. Rounding, infinities
  and NaN of binary floating point are outside of it.
\<close>

datatype RingElement = Integer int | Polynomial "rat list"

fun is_polynomial :: "RingElement \<Rightarrow> bool" where
  "is_polynomial (Integer _) = False"
| "is_polynomial (Polynomial _) = True"

text \<open>
  The exceptions the code can raise: \<^verbatim>\<open>ValueError\<close> is raised explicitly by
  \<^verbatim>\<open>gcd_ring_elements\<close> on an empty list; the other three are raised by the interpreter
  (\<^verbatim>\<open>xs[-1]\<close> on an empty list, a division or modulo by zero, an operation applied to an
  operand of the wrong type).
\<close>

datatype error = ValueError | IndexError | ZeroDivisionError | TypeError

section \<open>Integer GCD\<close>

text \<open>
  The loop of \<^verbatim>\<open>gcd_two\<close>: \<^verbatim>\<open>while b != 0: a, b = b, a % b\<close>. Python's \<^verbatim>\<open>%\<close> on integers
  takes the sign of the divisor, as \<open>mod\<close> on \<open>int\<close> does.
\<close>

function gcd_two_loop :: "int \<Rightarrow> int \<Rightarrow> int" where
  "gcd_two_loop a b = (if b \<noteq> 0 then gcd_two_loop b (a mod b) else a)"
  by pat_completeness auto
termination
proof (relation "measure (\<lambda>(a, b). nat \<bar>b\<bar>)")
  show "wf (measure (\<lambda>(a::int, b::int). nat \<bar>b\<bar>))" by simp
next
  fix a b :: int
  assume "b \<noteq> 0"
  then have "\<bar>a mod b\<bar> < \<bar>b\<bar>" by (rule abs_mod_less)
  then show "((b, a mod b), (a, b)) \<in> measure (\<lambda>(a, b). nat \<bar>b\<bar>)" by simp
qed

declare gcd_two_loop.simps [simp del]

definition gcd_two :: "int \<Rightarrow> int \<Rightarrow> int" where
  "gcd_two a b = gcd_two_loop \<bar>a\<bar> \<bar>b\<bar>"

text \<open>
  \<^verbatim>\<open>reduce(gcd_two, numbers)\<close> without an initial value: the first element starts the
  accumulator, an empty list raises \<^verbatim>\<open>TypeError\<close>, and a one-element list is returned
  as it is, \<^verbatim>\<open>gcd_two\<close> not being called.
\<close>

fun gcd_integers :: "int list \<Rightarrow> error + int" where
  "gcd_integers [] = Inl TypeError"
| "gcd_integers (x # xs) = Inr (foldl gcd_two x xs)"

section \<open>Polynomial division\<close>

text \<open>The tolerance \<^verbatim>\<open>1e-12\<close> of the tests \<^verbatim>\<open>abs(c) < 1e-12\<close>.\<close>

definition negligible :: "rat \<Rightarrow> bool" where
  "negligible c \<longleftrightarrow> \<bar>c\<bar> < 1 / 1000000000000"

text \<open>\<^verbatim>\<open>any(g)\<close>: some coefficient is truthy, that is, different from zero.\<close>

definition any :: "rat list \<Rightarrow> bool" where
  "any g \<longleftrightarrow> (\<exists>c \<in> set g. c \<noteq> 0)"

text \<open>
  One elimination of the leading term, for \<^verbatim>\<open>len(f) >= len(g)\<close>:
  \<^verbatim>\<open>for i in range(len(g)): f[i + deg_diff] -= coef * g[i]\<close>
  with \<^verbatim>\<open>deg_diff = len(f) - len(g)\<close>. The entries below \<^verbatim>\<open>deg_diff\<close> are untouched.
\<close>

definition eliminate :: "rat \<Rightarrow> rat list \<Rightarrow> rat list \<Rightarrow> rat list" where
  "eliminate coef f g =
     (let deg_diff = length f - length g
      in take deg_diff f @ map2 (\<lambda>a b. a - coef * b) (drop deg_diff f) g)"

text \<open>\<^verbatim>\<open>while f and abs(f[-1]) < 1e-12: f.pop()\<close>\<close>

function trim :: "rat list \<Rightarrow> rat list" where
  "trim f = (if f \<noteq> [] \<and> negligible (last f) then trim (butlast f) else f)"
  by pat_completeness auto
termination
  by (relation "measure length") auto

declare trim.simps [simp del]

lemma trim_pop: "f \<noteq> [] \<Longrightarrow> negligible (last f) \<Longrightarrow> trim f = trim (butlast f)"
  by (subst trim.simps) simp

lemma trim_stop: "f = [] \<or> \<not> negligible (last f) \<Longrightarrow> trim f = f"
  by (subst trim.simps) auto

lemma trim_length_le: "length (trim f) \<le> length f"
proof (induction f rule: trim.induct)
  case (1 f)
  show ?case
  proof (cases "f \<noteq> [] \<and> negligible (last f)")
    case True
    with "1" have "length (trim (butlast f)) \<le> length (butlast f)" by simp
    moreover from True have "trim f = trim (butlast f)" by (simp add: trim_pop)
    ultimately show ?thesis by simp
  next
    case False
    then have "trim f = f" by (intro trim_stop) auto
    then show ?thesis by simp
  qed
qed

lemma eliminate_length:
  "length g \<le> length f \<Longrightarrow> length (eliminate coef f g) = length f"
  by (simp add: eliminate_def Let_def)

lemma eliminate_last:
  assumes "g \<noteq> []" and "length g \<le> length f"
  shows "last (eliminate coef f g) = last f - coef * last g"
proof -
  let ?d = "length f - length g"
  let ?z = "map2 (\<lambda>a b. a - coef * b) (drop ?d f) g"
  have len: "length (drop ?d f) = length g" using assms by simp
  then have zlen: "length ?z = length g" by simp
  have "length g \<noteq> 0" using assms by simp
  with zlen have zne: "?z \<noteq> []" by (metis length_0_conv)
  have "last ?z = ?z ! (length g - 1)" using zne zlen by (simp add: last_conv_nth)
  also have "\<dots> = (drop ?d f) ! (length g - 1) - coef * g ! (length g - 1)"
    using assms len by simp
  also have "(drop ?d f) ! (length g - 1) = last (drop ?d f)"
    using assms len by (metis last_conv_nth length_0_conv)
  also have "last (drop ?d f) = last f"
  proof -
    have "0 < length g" using assms by simp
    then have "?d < length f" using assms by linarith
    then show ?thesis by (rule last_drop)
  qed
  also have "g ! (length g - 1) = last g" using assms by (simp add: last_conv_nth)
  finally have "last ?z = last f - coef * last g" .
  then show ?thesis using zne by (simp add: eliminate_def Let_def)
qed

lemma trim_eliminate_shorter:
  assumes "g \<noteq> []" and "length g \<le> length f" and "last g \<noteq> 0"
  shows "length (trim (eliminate (last f / last g) f g)) < length f"
proof -
  let ?e = "eliminate (last f / last g) f g"
  have len: "length ?e = length f" using assms by (simp add: eliminate_length)
  with assms have ne: "?e \<noteq> []" by auto
  have "last ?e = 0" using assms by (simp add: eliminate_last)
  then have "negligible (last ?e)" by (simp add: negligible_def)
  with ne have "trim ?e = trim (butlast ?e)" by (simp add: trim_pop)
  moreover have "length (trim (butlast ?e)) \<le> length (butlast ?e)" by (rule trim_length_le)
  moreover have "length (butlast ?e) < length f"
  proof -
    have "0 < length ?e" using ne by simp
    then show ?thesis using len by simp
  qed
  ultimately show ?thesis by simp
qed

text \<open>
  The division loop, written twice in the source (in \<^verbatim>\<open>gcd_polynomials\<close> on \<^verbatim>\<open>f, g\<close> and in
  \<^verbatim>\<open>is_in_ideal\<close> on \<^verbatim>\<open>f_coef, d_coef\<close>):
  \<^verbatim>\<open>
  while len(f) >= len(g):
      deg_diff = len(f) - len(g)
      coef = f[-1] / g[-1]
      for i in range(len(g)):
          f[i + deg_diff] -= coef * g[i]
      while f and abs(f[-1]) < 1e-12:
          f.pop()
  \<close>
  \<^verbatim>\<open>f[-1]\<close> and \<^verbatim>\<open>g[-1]\<close> raise \<^verbatim>\<open>IndexError\<close> on an empty list and the division raises
  \<^verbatim>\<open>ZeroDivisionError\<close> when \<^verbatim>\<open>g[-1]\<close> is zero. The result is what the loop leaves in \<^verbatim>\<open>f\<close>.
\<close>

function division_loop :: "rat list \<Rightarrow> rat list \<Rightarrow> error + rat list" where
  "division_loop f g =
     (if length f \<ge> length g then
        (if f = [] \<or> g = [] then Inl IndexError
         else if last g = 0 then Inl ZeroDivisionError
         else division_loop (trim (eliminate (last f / last g) f g)) g)
      else Inr f)"
  by pat_completeness auto
termination
proof (relation "measure (\<lambda>(f, g). length f)")
  show "wf (measure (\<lambda>(f::rat list, g::rat list). length f))" by simp
next
  fix f g :: "rat list"
  assume "length g \<le> length f" and "\<not> (f = [] \<or> g = [])" and "last g \<noteq> 0"
  then have "length (trim (eliminate (last f / last g) f g)) < length f"
    by (simp add: trim_eliminate_shorter)
  then show "((trim (eliminate (last f / last g) f g), g), (f, g)) \<in> measure (\<lambda>(f, g). length f)"
    by simp
qed

declare division_loop.simps [simp del]

lemma division_loop_exit: "length f < length g \<Longrightarrow> division_loop f g = Inr f"
  by (subst division_loop.simps) simp

lemma division_loop_step:
  "length g \<le> length f \<Longrightarrow> g \<noteq> [] \<Longrightarrow> last g \<noteq> 0 \<Longrightarrow>
   division_loop f g = division_loop (trim (eliminate (last f / last g) f g)) g"
  by (subst division_loop.simps) auto

lemma division_loop_empty_divisor: "division_loop f [] = Inl IndexError"
  by (subst division_loop.simps) simp

lemma division_loop_zero_lead:
  "length g \<le> length f \<Longrightarrow> g \<noteq> [] \<Longrightarrow> last g = 0 \<Longrightarrow> division_loop f g = Inl ZeroDivisionError"
  by (subst division_loop.simps) auto

lemma division_loop_Inr_length: "division_loop f g = Inr r \<Longrightarrow> length r < length g"
proof (induction f g rule: division_loop.induct)
  case (1 f g)
  show ?case
  proof (cases "length g \<le> length f")
    case False
    then have "division_loop f g = Inr f" by (simp add: division_loop_exit)
    with "1.prems" False show ?thesis by simp
  next
    case True
    from "1.prems" have g: "g \<noteq> []" by (auto simp: division_loop_empty_divisor)
    with True have f: "f \<noteq> []" by auto
    from "1.prems" True g have lg: "last g \<noteq> 0" by (auto simp: division_loop_zero_lead)
    from True g lg "1.prems"
    have "division_loop (trim (eliminate (last f / last g) f g)) g = Inr r"
      by (simp add: division_loop_step)
    with "1.IH" True f g lg show ?thesis by simp
  qed
qed

section \<open>Polynomial GCD\<close>

text \<open>
  The Euclidean loop of \<^verbatim>\<open>gcd_polynomials\<close>:
  \<^verbatim>\<open>
  while any(g):
      <division loop on f, g>
      f, g = g, f
  \<close>
  After the swap the divisor is the new \<^verbatim>\<open>f\<close> and the remainder the new \<^verbatim>\<open>g\<close>. The result is
  what the loop leaves in \<^verbatim>\<open>f\<close>.
\<close>

function euclid_loop :: "rat list \<Rightarrow> rat list \<Rightarrow> error + rat list" where
  "euclid_loop f g =
     (if any g then
        (case division_loop f g of
           Inl e \<Rightarrow> Inl e
         | Inr r \<Rightarrow> euclid_loop g r)
      else Inr f)"
  by pat_completeness auto
termination
proof (relation "measure (\<lambda>(f, g). length g)")
  show "wf (measure (\<lambda>(f::rat list, g::rat list). length g))" by simp
next
  fix f g r :: "rat list"
  assume "division_loop f g = Inr r"
  then have "length r < length g" by (rule division_loop_Inr_length)
  then show "((g, r), (f, g)) \<in> measure (\<lambda>(f, g). length g)" by simp
qed

declare euclid_loop.simps [simp del]

text \<open>
  The normalisation that ends each round of the \<^verbatim>\<open>for\<close> loop:
  \<^verbatim>\<open>lc = f[-1]\<close> (\<^verbatim>\<open>IndexError\<close> on the empty list), then \<^verbatim>\<open>d = [c / lc for c in f]\<close>
  (\<^verbatim>\<open>ZeroDivisionError\<close> when \<^verbatim>\<open>lc\<close> is zero).
\<close>

definition divide_by_lc :: "rat list \<Rightarrow> error + rat list" where
  "divide_by_lc f =
     (if f = [] then Inl IndexError
      else if last f = 0 then Inl ZeroDivisionError
      else Inr (map (\<lambda>c. c / last f) f))"

text \<open>
  The body of \<^verbatim>\<open>for p in polys[1:]\<close>: \<^verbatim>\<open>g = p.data[:]\<close> raises \<^verbatim>\<open>TypeError\<close> when the data
  is an \<^verbatim>\<open>int\<close>; then the Euclidean loop runs on \<^verbatim>\<open>f = d[:]\<close> and \<^verbatim>\<open>g\<close> and its result is
  normalised into the new \<^verbatim>\<open>d\<close>.
\<close>

fun fold_in :: "rat list \<Rightarrow> RingElement \<Rightarrow> error + rat list" where
  "fold_in d (Integer _) = Inl TypeError"
| "fold_in d (Polynomial g) =
     (case euclid_loop d g of
        Inl e \<Rightarrow> Inl e
      | Inr f \<Rightarrow> divide_by_lc f)"

fun for_polys :: "rat list \<Rightarrow> RingElement list \<Rightarrow> error + rat list" where
  "for_polys d [] = Inr d"
| "for_polys d (p # ps) =
     (case fold_in d p of
        Inl e \<Rightarrow> Inl e
      | Inr d' \<Rightarrow> for_polys d' ps)"

text \<open>
  \<^verbatim>\<open>gcd_polynomials\<close>: \<^verbatim>\<open>d = polys[0].data[:]\<close> (\<^verbatim>\<open>IndexError\<close> on an empty list,
  \<^verbatim>\<open>TypeError\<close> when the data is an \<^verbatim>\<open>int\<close>), the \<^verbatim>\<open>for\<close> loop over \<^verbatim>\<open>polys[1:]\<close>, and
  \<^verbatim>\<open>return RingElement(d)\<close>.
\<close>

fun gcd_polynomials :: "RingElement list \<Rightarrow> error + RingElement" where
  "gcd_polynomials [] = Inl IndexError"
| "gcd_polynomials (Integer _ # _) = Inl TypeError"
| "gcd_polynomials (Polynomial d # rest) =
     (case for_polys d rest of
        Inl e \<Rightarrow> Inl e
      | Inr d' \<Rightarrow> Inr (Polynomial d'))"

section \<open>Dispatch and ideal membership\<close>

text \<open>
  \<^verbatim>\<open>nums = [e.data for e in elements]\<close> is handed to \<^verbatim>\<open>gcd_integers\<close>, whose \<^verbatim>\<open>gcd_two\<close>
  applies \<^verbatim>\<open>abs\<close> to each operand: a list among the data raises \<^verbatim>\<open>TypeError\<close>. This branch
  is taken when the first element is an integer, so a list can only occur behind it, where
  \<^verbatim>\<open>gcd_two\<close> is called on it.
\<close>

fun int_data :: "RingElement \<Rightarrow> int option" where
  "int_data (Integer n) = Some n"
| "int_data (Polynomial _) = None"

definition gcd_ring_elements :: "RingElement list \<Rightarrow> error + RingElement" where
  "gcd_ring_elements elements =
     (if elements = [] then Inl ValueError
      else if \<not> is_polynomial (hd elements) then
        (case those (map int_data elements) of
           None \<Rightarrow> Inl TypeError
         | Some nums \<Rightarrow>
             (case gcd_integers nums of
                Inl e \<Rightarrow> Inl e
              | Inr n \<Rightarrow> Inr (Integer n)))
      else gcd_polynomials elements)"

text \<open>
  \<^verbatim>\<open>is_in_ideal\<close>. For an integer \<^verbatim>\<open>f\<close> the result is \<^verbatim>\<open>f.data % d.data == 0\<close>: the modulo
  raises \<^verbatim>\<open>ZeroDivisionError\<close> when \<^verbatim>\<open>d.data\<close> is \<^verbatim>\<open>0\<close> and \<^verbatim>\<open>TypeError\<close> when it is a list.
  For a polynomial \<^verbatim>\<open>f\<close>, \<^verbatim>\<open>d.data[:]\<close> raises \<^verbatim>\<open>TypeError\<close> when \<^verbatim>\<open>d.data\<close> is an \<^verbatim>\<open>int\<close>;
  otherwise the division loop runs on the copies and the result is
  \<^verbatim>\<open>all(abs(c) < 1e-12 for c in f_coef)\<close>.
\<close>

definition is_in_ideal :: "RingElement \<Rightarrow> RingElement list \<Rightarrow> error + bool" where
  "is_in_ideal f generators =
     (case gcd_ring_elements generators of
        Inl e \<Rightarrow> Inl e
      | Inr d \<Rightarrow>
          (case f of
             Integer n \<Rightarrow>
               (case d of
                  Integer m \<Rightarrow> if m = 0 then Inl ZeroDivisionError else Inr (n mod m = 0)
                | Polynomial _ \<Rightarrow> Inl TypeError)
           | Polynomial f_coef \<Rightarrow>
               (case d of
                  Integer _ \<Rightarrow> Inl TypeError
                | Polynomial d_coef \<Rightarrow>
                    (case division_loop f_coef d_coef of
                       Inl e \<Rightarrow> Inl e
                     | Inr r \<Rightarrow> Inr (list_all negligible r)))))"

section \<open>Properties of the integer GCD\<close>

lemma gcd_two_loop_gcd: "0 \<le> a \<Longrightarrow> 0 \<le> b \<Longrightarrow> gcd_two_loop a b = gcd a b"
proof (induction a b rule: gcd_two_loop.induct)
  case (1 a b)
  show ?case
  proof (cases "b = 0")
    case True
    with "1.prems" show ?thesis by (subst gcd_two_loop.simps) simp
  next
    case False
    with "1.prems" have "0 < b" by simp
    then have "0 \<le> a mod b" by simp
    with "1.IH" False "1.prems" have "gcd_two_loop b (a mod b) = gcd b (a mod b)" by simp
    also have "\<dots> = gcd a b" by (metis gcd.commute gcd_red_int)
    finally show ?thesis using False by (subst gcd_two_loop.simps) simp
  qed
qed

lemma gcd_two_gcd: "gcd_two a b = gcd a b"
  by (simp add: gcd_two_def gcd_two_loop_gcd)

lemma foldl_gcd_two_Cons: "foldl gcd_two a (x # xs) = foldl gcd_two (gcd a x) xs"
  by (simp only: foldl_Cons gcd_two_gcd)

lemma foldl_gcd_two_dvd: "\<forall>y \<in> set (a # xs). foldl gcd_two a xs dvd y"
proof (induction xs arbitrary: a)
  case Nil
  show ?case by simp
next
  case (Cons x xs)
  have ih: "\<forall>y \<in> set (gcd a x # xs). foldl gcd_two (gcd a x) xs dvd y" by (rule Cons.IH)
  then have "foldl gcd_two (gcd a x) xs dvd gcd a x" by simp
  then have "foldl gcd_two (gcd a x) xs dvd a" "foldl gcd_two (gcd a x) xs dvd x"
    by (meson dvd_trans gcd_dvd1 gcd_dvd2)+
  with ih show ?case by (simp only: foldl_gcd_two_Cons) simp
qed

lemma foldl_gcd_two_greatest:
  "\<forall>y \<in> set (a # xs). k dvd y \<Longrightarrow> k dvd foldl gcd_two a xs"
proof (induction xs arbitrary: a)
  case Nil
  then show ?case by simp
next
  case (Cons x xs)
  then have "k dvd gcd a x" by simp
  with Cons.prems have "\<forall>y \<in> set (gcd a x # xs). k dvd y" by simp
  then have "k dvd foldl gcd_two (gcd a x) xs" by (rule Cons.IH)
  then show ?case by (simp only: foldl_gcd_two_Cons)
qed

lemma foldl_gcd_two_nonneg: "0 \<le> a \<Longrightarrow> 0 \<le> foldl gcd_two a xs"
proof (induction xs arbitrary: a)
  case Nil
  then show ?case by simp
next
  case (Cons x xs)
  have "0 \<le> gcd a x" by simp
  then have "0 \<le> foldl gcd_two (gcd a x) xs" by (rule Cons.IH)
  then show ?case by (simp only: foldl_gcd_two_Cons)
qed

section \<open>Properties of the loops\<close>

lemma division_loop_total:
  "g \<noteq> [] \<Longrightarrow> last g \<noteq> 0 \<Longrightarrow> \<exists>r. division_loop f g = Inr r"
proof (induction f g rule: division_loop.induct)
  case (1 f g)
  show ?case
  proof (cases "length g \<le> length f")
    case False
    then show ?thesis by (simp add: division_loop_exit)
  next
    case True
    with "1.prems" have f: "f \<noteq> []" by auto
    from True f "1.prems" "1.IH"
    have "\<exists>r. division_loop (trim (eliminate (last f / last g) f g)) g = Inr r" by simp
    with True "1.prems" show ?thesis by (simp add: division_loop_step)
  qed
qed


lemma division_loop_error:
  "division_loop f g = Inl e \<Longrightarrow> e = IndexError \<or> e = ZeroDivisionError"
proof (induction f g rule: division_loop.induct)
  case (1 f g)
  show ?case
  proof (cases "length g \<le> length f")
    case False
    then have "division_loop f g = Inr f" by (simp add: division_loop_exit)
    with "1.prems" show ?thesis by simp
  next
    case True
    show ?thesis
    proof (cases "g = []")
      case True
      with "1.prems" show ?thesis by (simp add: division_loop_empty_divisor)
    next
      case g: False
      with True have f: "f \<noteq> []" by auto
      show ?thesis
      proof (cases "last g = 0")
        case True
        with \<open>length g \<le> length f\<close> g "1.prems" show ?thesis
          by (simp add: division_loop_zero_lead)
      next
        case False
        with \<open>length g \<le> length f\<close> g "1.prems"
        have "division_loop (trim (eliminate (last f / last g) f g)) g = Inl e"
          by (simp add: division_loop_step)
        with "1.IH" \<open>length g \<le> length f\<close> f g False show ?thesis by simp
      qed
    qed
  qed
qed

lemma euclid_loop_exit: "\<not> any g \<Longrightarrow> euclid_loop f g = Inr f"
  by (subst euclid_loop.simps) simp

lemma euclid_loop_step:
  "any g \<Longrightarrow> division_loop f g = Inr r \<Longrightarrow> euclid_loop f g = euclid_loop g r"
  by (subst euclid_loop.simps) simp

lemma euclid_loop_fail:
  "any g \<Longrightarrow> division_loop f g = Inl e \<Longrightarrow> euclid_loop f g = Inl e"
  by (subst euclid_loop.simps) simp

lemma euclid_loop_error:
  "euclid_loop f g = Inl e \<Longrightarrow> e = IndexError \<or> e = ZeroDivisionError"
proof (induction f g rule: euclid_loop.induct)
  case (1 f g)
  show ?case
  proof (cases "any g")
    case False
    with "1.prems" show ?thesis by (simp add: euclid_loop_exit)
  next
    case True
    show ?thesis
    proof (cases "division_loop f g")
      case (Inl e')
      with True "1.prems" have "e' = e" by (simp add: euclid_loop_fail)
      with Inl show ?thesis using division_loop_error by blast
    next
      case (Inr r)
      with True "1.prems" have "euclid_loop g r = Inl e" by (simp add: euclid_loop_step)
      with "1.IH" True Inr show ?thesis by simp
    qed
  qed
qed

lemma divide_by_lc_error:
  "divide_by_lc f = Inl e \<Longrightarrow> e = IndexError \<or> e = ZeroDivisionError"
  by (auto simp: divide_by_lc_def split: if_splits)

lemma fold_in_error: "fold_in d p = Inl e \<Longrightarrow> e \<noteq> ValueError"
proof (cases p)
  case (Integer n)
  assume "fold_in d p = Inl e"
  with Integer show ?thesis by simp
next
  case (Polynomial g)
  assume a: "fold_in d p = Inl e"
  show ?thesis
  proof (cases "euclid_loop d g")
    case (Inl e')
    with a Polynomial have "e' = e" by simp
    with Inl euclid_loop_error show ?thesis by blast
  next
    case (Inr f)
    with a Polynomial have "divide_by_lc f = Inl e" by simp
    with divide_by_lc_error show ?thesis by blast
  qed
qed

lemma for_polys_error: "for_polys d ps = Inl e \<Longrightarrow> e \<noteq> ValueError"
proof (induction ps arbitrary: d)
  case Nil
  then show ?case by simp
next
  case (Cons p ps)
  show ?case
  proof (cases "fold_in d p")
    case (Inl e')
    with Cons.prems have "e' = e" by simp
    with Inl fold_in_error show ?thesis by blast
  next
    case (Inr d')
    with Cons.prems have "for_polys d' ps = Inl e" by simp
    then show ?thesis by (rule Cons.IH)
  qed
qed

lemma gcd_polynomials_error: "gcd_polynomials polys = Inl e \<Longrightarrow> e \<noteq> ValueError"
proof (cases polys rule: gcd_polynomials.cases)
  case 1
  assume "gcd_polynomials polys = Inl e"
  with 1 show ?thesis by simp
next
  case (2 n rest)
  assume "gcd_polynomials polys = Inl e"
  with 2 show ?thesis by simp
next
  case (3 d rest)
  assume a: "gcd_polynomials polys = Inl e"
  show ?thesis
  proof (cases "for_polys d rest")
    case (Inl e')
    with a 3 have "e' = e" by simp
    with Inl for_polys_error show ?thesis by blast
  next
    case (Inr d')
    with a 3 show ?thesis by simp
  qed
qed

lemma gcd_ring_elements_ValueError:
  "gcd_ring_elements elements = Inl ValueError \<longleftrightarrow> elements = []"
proof
  assume a: "gcd_ring_elements elements = Inl ValueError"
  show "elements = []"
  proof (rule ccontr)
    assume ne: "elements \<noteq> []"
    show False
    proof (cases "is_polynomial (hd elements)")
      case True
      with a ne have "gcd_polynomials elements = Inl ValueError"
        by (simp add: gcd_ring_elements_def)
      then show False using gcd_polynomials_error by blast
    next
      case False
      with a ne show False
        by (cases "those (map int_data elements)"; cases elements)
           (auto simp: gcd_ring_elements_def split: option.splits)
    qed
  qed
next
  assume "elements = []"
  then show "gcd_ring_elements elements = Inl ValueError"
    by (simp add: gcd_ring_elements_def)
qed

















section \<open>Iteration bound of the division loop\<close>

text \<open>
  The division loop with a bound on its iterations: \<open>None\<close> when the loop condition still holds
  after \<open>n\<close> iterations, and otherwise what the loop returns or raises. It is used to count the
  iterations of \<open>division_loop\<close>; the source has no such bound.
\<close>

fun division_loop_bounded :: "nat \<Rightarrow> rat list \<Rightarrow> rat list \<Rightarrow> (error + rat list) option" where
  "division_loop_bounded n f g =
     (if length f \<ge> length g then
        (case n of
           0 \<Rightarrow> None
         | Suc m \<Rightarrow>
             (if f = [] \<or> g = [] then Some (Inl IndexError)
              else if last g = 0 then Some (Inl ZeroDivisionError)
              else division_loop_bounded m (trim (eliminate (last f / last g) f g)) g))
      else Some (Inr f))"

declare division_loop_bounded.simps [simp del]

text \<open>
  With exact coefficient arithmetic an elimination makes the last coefficient zero, which the
  trimming drops, so \<open>len(f) - len(g) + 1\<close> iterations are enough; for a non-empty divisor
  that is at most \<open>len(f)\<close>, the degree of \<open>f\<close> plus one.
\<close>

lemma division_loop_bounded_enough:
  "length f < length g + n \<Longrightarrow> division_loop_bounded n f g = Some (division_loop f g)"
proof (induction n arbitrary: f)
  case 0
  then have "length f < length g" by simp
  then show ?case
    by (subst division_loop_bounded.simps) (simp add: division_loop_exit)
next
  case (Suc n)
  show ?case
  proof (cases "length g \<le> length f")
    case False
    then show ?thesis
      by (subst division_loop_bounded.simps) (simp add: division_loop_exit)
  next
    case True
    show ?thesis
    proof (cases "g = []")
      case True
      then show ?thesis
        by (subst division_loop_bounded.simps) (simp add: division_loop_empty_divisor)
    next
      case g: False
      with True have f: "f \<noteq> []" by auto
      show ?thesis
      proof (cases "last g = 0")
        case True
        with \<open>length g \<le> length f\<close> g f show ?thesis
          by (subst division_loop_bounded.simps) (simp add: division_loop_zero_lead)
      next
        case False
        let ?f' = "trim (eliminate (last f / last g) f g)"
        from g \<open>length g \<le> length f\<close> False have "length ?f' < length f"
          by (rule trim_eliminate_shorter)
        with Suc.prems have "length ?f' < length g + n" by simp
        then have "division_loop_bounded n ?f' g = Some (division_loop ?f' g)" by (rule Suc.IH)
        with \<open>length g \<le> length f\<close> g f False show ?thesis
          by (subst division_loop_bounded.simps) (simp add: division_loop_step)
      qed
    qed
  qed
qed

lemma division_loop_iterations:
  assumes "g \<noteq> []" and "last g \<noteq> 0"
  shows "\<exists>r. division_loop_bounded (length f) f g = Some (Inr r)"
proof -
  from assms(1) have "length f < length g + length f" by simp
  then have "division_loop_bounded (length f) f g = Some (division_loop f g)"
    by (rule division_loop_bounded_enough)
  moreover from assms obtain r where "division_loop f g = Inr r"
    using division_loop_total by blast
  ultimately show ?thesis by simp
qed

section \<open>The claims\<close>



text \<open>
  C2, as amended. For every non-empty list of integers \<^verbatim>\<open>gcd_integers\<close> returns an integer
  that divides every element and that every common divisor divides. When some element is
  not zero, and the list has two or more elements or its only element is not negative, the
  result is the largest integer dividing every element. When all elements are zero the result
  is zero.
\<close>

theorem gcd_integers_divides_and_greatest:
  assumes "numbers \<noteq> []"
  shows "\<exists>r. gcd_integers numbers = Inr r
     \<and> (\<forall>x \<in> set numbers. r dvd x)
     \<and> (\<forall>k. (\<forall>x \<in> set numbers. k dvd x) \<longrightarrow> k dvd r)
     \<and> ((2 \<le> length numbers \<or> 0 \<le> hd numbers) \<and> (\<exists>x \<in> set numbers. x \<noteq> 0)
          \<longrightarrow> (\<forall>k. (\<forall>x \<in> set numbers. k dvd x) \<longrightarrow> k \<le> r))
     \<and> ((\<forall>x \<in> set numbers. x = 0) \<longrightarrow> r = 0)"
proof -
  from assms obtain a xs where n: "numbers = a # xs" by (cases numbers) auto
  let ?r = "foldl gcd_two a xs"
  have r: "gcd_integers numbers = Inr ?r" using n by simp
  have dv: "\<forall>x \<in> set numbers. ?r dvd x" unfolding n by (rule foldl_gcd_two_dvd)
  have gr: "\<forall>k. (\<forall>x \<in> set numbers. k dvd x) \<longrightarrow> k dvd ?r"
    unfolding n using foldl_gcd_two_greatest by blast
  have nonneg: "2 \<le> length numbers \<or> 0 \<le> hd numbers \<Longrightarrow> 0 \<le> ?r"
  proof (cases xs)
    case Nil
    assume "2 \<le> length numbers \<or> 0 \<le> hd numbers"
    with n Nil show ?thesis by simp
  next
    case (Cons x xs')
    have "0 \<le> foldl gcd_two (gcd a x) xs'" by (rule foldl_gcd_two_nonneg) simp
    then show ?thesis unfolding Cons by (simp only: foldl_gcd_two_Cons)
  qed
  have largest: "\<forall>k. (\<forall>x \<in> set numbers. k dvd x) \<longrightarrow> k \<le> ?r"
    if h: "2 \<le> length numbers \<or> 0 \<le> hd numbers" and nz: "\<exists>x \<in> set numbers. x \<noteq> 0"
  proof (intro allI impI)
    fix k assume k: "\<forall>x \<in> set numbers. k dvd x"
    from nz obtain x where x: "x \<in> set numbers" "x \<noteq> 0" by blast
    with dv have "?r dvd x" by blast
    with x have "?r \<noteq> 0" by auto
    with nonneg [OF h] have pos: "0 < ?r" by simp
    from gr k have "k dvd ?r" by blast
    then show "k \<le> ?r" using pos by (rule zdvd_imp_le)
  qed
  have zero: "?r = 0" if z: "\<forall>x \<in> set numbers. x = 0"
  proof -
    from z have "\<forall>x \<in> set numbers. (0::int) dvd x" by simp
    with gr have "0 dvd ?r" by blast
    then show ?thesis by simp
  qed
  from r dv gr largest zero show ?thesis by blast
qed

theorem gcd_integers_divides_and_greatest_witness:
  "[12, 18] \<noteq> ([] :: int list) \<and>
   (\<exists>r. gcd_integers [12, 18] = Inr r \<and> r dvd 12 \<and> r dvd 18 \<and> 6 \<le> r)"
proof -
  have ne: "[12, 18] \<noteq> ([] :: int list)" by simp
  from gcd_integers_divides_and_greatest [OF ne]
  obtain r where r: "gcd_integers [12, 18] = Inr r"
    and dv: "\<forall>x \<in> set [12, 18]. r dvd x"
    and lg: "(2 \<le> length [12, 18 :: int] \<or> 0 \<le> hd [12, 18 :: int]) \<and> (\<exists>x \<in> set [12, 18 :: int]. x \<noteq> 0)
          \<longrightarrow> (\<forall>k. (\<forall>x \<in> set [12, 18]. k dvd x) \<longrightarrow> k \<le> r)"
    by blast
  from lg have "\<forall>k. (\<forall>x \<in> set [12, 18 :: int]. k dvd x) \<longrightarrow> k \<le> r" by simp
  then have "(\<forall>x \<in> set [12, 18 :: int]. 6 dvd x) \<longrightarrow> 6 \<le> r" by (rule spec)
  then have "6 \<le> r" by simp
  with ne r dv show ?thesis by simp
qed

text \<open>
  The claim as stated fails on the list \<open>[0, 0]\<close>: the result is \<open>0\<close>, while \<open>1\<close> divides
  every element and is larger.
\<close>

theorem gcd_integers_all_zero_counterexample:
  "gcd_integers [0, 0] = Inr 0 \<and> (1::int) dvd 0 \<and> (0::int) < 1"
  by (simp add: gcd_two_gcd)







text \<open>
  C5. The claim is that the result is never negative and that a one-element list \<open>[v]\<close>
  yields \<open>\<bar>v\<bar>\<close>. On \<open>[-7]\<close> the code returns \<open>-7\<close>: \<^verbatim>\<open>reduce\<close> returns the only
  element without calling \<^verbatim>\<open>gcd_two\<close>, which is where the absolute value is taken.
\<close>

theorem gcd_integers_negative_singleton: "gcd_integers [- 7] = Inr (- 7)"
  by simp

text \<open>
  C6. The claim is that generators whose GCD is \<open>0\<close> make \<^verbatim>\<open>is_in_ideal\<close> answer whether
  \<open>f\<close> is \<open>0\<close>. The code evaluates \<^verbatim>\<open>f.data % 0\<close>, which raises \<^verbatim>\<open>ZeroDivisionError\<close>.
\<close>

theorem is_in_ideal_zero_generators:
  "is_in_ideal (Integer 0) [Integer 0, Integer 0] = Inl ZeroDivisionError"
  by (simp add: is_in_ideal_def gcd_ring_elements_def gcd_two_gcd)

text \<open>
  C8. \<^verbatim>\<open>gcd_ring_elements\<close> fails with the \<^verbatim>\<open>ValueError\<close> of the empty-list check exactly
  when its list is empty, and \<^verbatim>\<open>is_in_ideal\<close> fails with it exactly when the list of
  generators is empty.
\<close>

theorem empty_input_ValueError_iff:
  "(gcd_ring_elements elements = Inl ValueError \<longleftrightarrow> elements = []) \<and>
   (is_in_ideal f generators = Inl ValueError \<longleftrightarrow> generators = [])"
proof -
  have "is_in_ideal f generators = Inl ValueError \<longleftrightarrow>
        gcd_ring_elements generators = Inl ValueError"
  proof
    assume a: "is_in_ideal f generators = Inl ValueError"
    show "gcd_ring_elements generators = Inl ValueError"
    proof (cases "gcd_ring_elements generators")
      case (Inl e)
      with a show ?thesis by (simp add: is_in_ideal_def)
    next
      case (Inr d)
      have False
      proof (cases f)
        case (Integer n)
        with a Inr show False
          by (cases d) (auto simp: is_in_ideal_def split: if_splits)
      next
        case (Polynomial fc)
        show False
        proof (cases d)
          case (Integer m)
          with a Inr Polynomial show False by (simp add: is_in_ideal_def)
        next
          case dp: (Polynomial dc)
          show False
          proof (cases "division_loop fc dc")
            case (Inl e)
            with a Inr Polynomial dp have "e = ValueError" by (simp add: is_in_ideal_def)
            with Inl division_loop_error show False by blast
          next
            case r: (Inr r)
            with a Inr Polynomial dp show False by (simp add: is_in_ideal_def)
          qed
        qed
      qed
      then show ?thesis ..
    qed
  next
    assume "gcd_ring_elements generators = Inl ValueError"
    then show "is_in_ideal f generators = Inl ValueError" by (simp add: is_in_ideal_def)
  qed
  then show ?thesis by (simp add: gcd_ring_elements_ValueError)
qed




text \<open>
  C10. On the list holding only the zero polynomial, \<^verbatim>\<open>gcd_ring_elements\<close> returns the
  zero polynomial: no error is raised and nothing is normalised.
\<close>

theorem gcd_ring_elements_zero_singleton:
  "gcd_ring_elements [Polynomial []] = Inr (Polynomial [])"
  by (simp add: gcd_ring_elements_def)

end
